theory Spec2Isabelle
  imports Main "HOL-Library.AList"
begin

section \<open>Values, exceptions and the environment\<close>

text \<open>
  The bot keeps two JSON documents on disk (\<^verbatim>\<open>data/accounts.json\<close>, the pool, and
  \<^verbatim>\<open>data/invites.json\<close>, the ledger) and one dictionary in memory (\<^verbatim>\<open>invite_cache\<close>).
  A Python value that \<^verbatim>\<open>json.load\<close> can return is a \<open>json\<close>; a dictionary is an
  association list in insertion order, read with \<open>map_of\<close> and written with
  \<open>AList.update\<close> (an existing key keeps its place, a new key goes last, as in Python).
  Numbers are integers, as the ledger's are.
\<close>

datatype json =
    JNull
  | JBool bool
  | JInt int
  | JStr string
  | JList "json list"
  | JDict "(string \<times> json) list"

text \<open>The exceptions the handlers tell apart or let through.\<close>

datatype exn =
    OSError
  | FileNotFoundError
  | JSONDecodeError
  | ValueError
  | KeyError
  | TypeError
  | AttributeError
  | IndexError
  | Forbidden
  | HTTPException

text \<open>
  A file is absent, holds text that \<^verbatim>\<open>json.load\<close> rejects (a half-written document is
  such a text), or holds a document.
\<close>

datatype content = Unparsable | Document json

text \<open>
  Every call of the operating system either succeeds or raises. Which one happens is the
  environment's choice: the state carries the outcomes of the coming calls, one per call and
  in order; when the list is used up every further call succeeds. A write can fail before the
  file is touched (\<open>Fails\<close>) or after part of the text went out (\<open>FailsMidway\<close>).
  Directories are not part of the state: \<^verbatim>\<open>os.makedirs(os.path.dirname(filename),
  exist_ok=True)\<close> succeeds or raises as the environment says (in Python it always raises for
  a filename with no directory part).
\<close>

datatype io = Succeeds | Fails | FailsMidway

record world =
  files :: "string \<Rightarrow> content option"
  invite_cache :: "int \<Rightarrow> (string \<Rightarrow> int option) option"
  outcomes :: "io list"

definition next_io :: "world \<Rightarrow> io \<times> world" where
  "next_io w = (case outcomes w of [] \<Rightarrow> (Succeeds, w) | x # xs \<Rightarrow> (x, w\<lparr>outcomes := xs\<rparr>))"

definition os_makedirs :: "world \<Rightarrow> (exn + unit) \<times> world" where
  "os_makedirs w =
     (case next_io w of
        (Succeeds, w') \<Rightarrow> (Inr (), w')
      | (_, w') \<Rightarrow> (Inl OSError, w'))"

text \<open>\<^verbatim>\<open>with open(filename, 'r') as f: data = json.load(f)\<close>\<close>

definition read_json :: "string \<Rightarrow> world \<Rightarrow> (exn + json) \<times> world" where
  "read_json filename w =
     (case next_io w of
        (Succeeds, w') \<Rightarrow>
          (case files w' filename of
             None \<Rightarrow> (Inl FileNotFoundError, w')
           | Some Unparsable \<Rightarrow> (Inl JSONDecodeError, w')
           | Some (Document data) \<Rightarrow> (Inr data, w'))
      | (_, w') \<Rightarrow> (Inl OSError, w'))"

text \<open>\<^verbatim>\<open>with open(filename, 'w') as f: json.dump(data, f, indent=4)\<close>\<close>

definition write_json :: "string \<Rightarrow> json \<Rightarrow> world \<Rightarrow> (exn + unit) \<times> world" where
  "write_json filename data w =
     (case next_io w of
        (Succeeds, w') \<Rightarrow> (Inr (), w'\<lparr>files := (files w')(filename \<mapsto> Document data)\<rparr>)
      | (Fails, w') \<Rightarrow> (Inl OSError, w')
      | (FailsMidway, w') \<Rightarrow> (Inl OSError, w'\<lparr>files := (files w')(filename \<mapsto> Unparsable)\<rparr>))"

definition os_replace :: "string \<Rightarrow> string \<Rightarrow> world \<Rightarrow> (exn + unit) \<times> world" where
  "os_replace src dst w =
     (case next_io w of
        (Succeeds, w') \<Rightarrow>
          (case files w' src of
             None \<Rightarrow> (Inl FileNotFoundError, w')
           | Some c \<Rightarrow> (Inr (), w'\<lparr>files := (files w')(dst \<mapsto> c, src := None)\<rparr>))
      | (_, w') \<Rightarrow> (Inl OSError, w'))"

definition os_path_exists :: "string \<Rightarrow> world \<Rightarrow> bool" where
  "os_path_exists path w = (files w path \<noteq> None)"

definition os_remove :: "string \<Rightarrow> world \<Rightarrow> (exn + unit) \<times> world" where
  "os_remove path w =
     (case next_io w of
        (Succeeds, w') \<Rightarrow>
          (case files w' path of
             None \<Rightarrow> (Inl FileNotFoundError, w')
           | Some c \<Rightarrow> (Inr (), w'\<lparr>files := (files w')(path := None)\<rparr>))
      | (_, w') \<Rightarrow> (Inl OSError, w'))"

section \<open>Python operations on loaded values\<close>

text \<open>
  What the handlers do to a value that came out of a file, for every shape the value can
  have: a value of the wrong shape raises where Python raises.
\<close>

definition bind :: "exn + 'a \<Rightarrow> ('a \<Rightarrow> exn + 'b) \<Rightarrow> exn + 'b" where
  "bind m f = (case m of Inl e \<Rightarrow> Inl e | Inr x \<Rightarrow> f x)"

fun str_nat :: "nat \<Rightarrow> string" where
  "str_nat n =
     (if n < 10 then [''0123456789'' ! n]
      else str_nat (n div 10) @ [''0123456789'' ! (n mod 10)])"

declare str_nat.simps [simp del]

definition py_str :: "int \<Rightarrow> string" where
  "py_str i = (if i < 0 then CHR ''-'' # str_nat (nat (- i)) else str_nat (nat i))"

fun is_substring :: "string \<Rightarrow> string \<Rightarrow> bool" where
  "is_substring k [] = (k = [])"
| "is_substring k (c # cs) = (take (length k) (c # cs) = k \<or> is_substring k cs)"

text \<open>\<^verbatim>\<open>k in obj\<close>\<close>

fun py_contains :: "json \<Rightarrow> string \<Rightarrow> exn + bool" where
  "py_contains (JDict d) k = Inr (map_of d k \<noteq> None)"
| "py_contains (JList xs) k = Inr (JStr k \<in> set xs)"
| "py_contains (JStr s) k = Inr (is_substring k s)"
| "py_contains _ k = Inl TypeError"

text \<open>\<^verbatim>\<open>obj[k]\<close> for a string \<open>k\<close>\<close>

fun py_getitem :: "json \<Rightarrow> string \<Rightarrow> exn + json" where
  "py_getitem (JDict d) k = (case map_of d k of None \<Rightarrow> Inl KeyError | Some v \<Rightarrow> Inr v)"
| "py_getitem _ k = Inl TypeError"

text \<open>\<^verbatim>\<open>obj[k] = v\<close> for a string \<open>k\<close>\<close>

fun py_setitem :: "json \<Rightarrow> string \<Rightarrow> json \<Rightarrow> exn + json" where
  "py_setitem (JDict d) k v = Inr (JDict (AList.update k v d))"
| "py_setitem _ k v = Inl TypeError"

text \<open>A value used as a number (\<^verbatim>\<open>x < 1\<close>, \<^verbatim>\<open>x += 1\<close>, \<^verbatim>\<open>x -= 1\<close>): a bool is an int.\<close>

fun py_int :: "json \<Rightarrow> exn + int" where
  "py_int (JInt n) = Inr n"
| "py_int (JBool b) = Inr (if b then 1 else 0)"
| "py_int _ = Inl TypeError"

fun py_len :: "json \<Rightarrow> exn + nat" where
  "py_len (JList xs) = Inr (length xs)"
| "py_len (JStr s) = Inr (length s)"
| "py_len (JDict d) = Inr (length d)"
| "py_len _ = Inl TypeError"

text \<open>The truth value of \<^verbatim>\<open>obj\<close> in \<^verbatim>\<open>if not obj\<close>.\<close>

fun py_bool :: "json \<Rightarrow> bool" where
  "py_bool JNull = False"
| "py_bool (JBool b) = b"
| "py_bool (JInt n) = (n \<noteq> 0)"
| "py_bool (JStr s) = (s \<noteq> [])"
| "py_bool (JList xs) = (xs \<noteq> [])"
| "py_bool (JDict d) = (d \<noteq> [])"

text \<open>\<^verbatim>\<open>obj[0]\<close>: a dictionary loaded from JSON has no integer key.\<close>

fun py_first :: "json \<Rightarrow> exn + json" where
  "py_first (JList []) = Inl IndexError"
| "py_first (JList (x # xs)) = Inr x"
| "py_first (JStr []) = Inl IndexError"
| "py_first (JStr (c # cs)) = Inr (JStr [c])"
| "py_first (JDict d) = Inl KeyError"
| "py_first _ = Inl TypeError"

text \<open>\<^verbatim>\<open>obj.pop(0)\<close>: the value removed and what is left.\<close>

fun py_pop_first :: "json \<Rightarrow> exn + json \<times> json" where
  "py_pop_first (JList []) = Inl IndexError"
| "py_pop_first (JList (x # xs)) = Inr (x, JList xs)"
| "py_pop_first (JDict d) = Inl KeyError"
| "py_pop_first _ = Inl AttributeError"

text \<open>\<^verbatim>\<open>obj.append(v)\<close>\<close>

fun py_append :: "json \<Rightarrow> json \<Rightarrow> exn + json" where
  "py_append (JList xs) v = Inr (JList (xs @ [v]))"
| "py_append _ v = Inl AttributeError"

section \<open>The durable store\<close>

definition ACCOUNTS_FILE :: string where
  "ACCOUNTS_FILE = ''data/accounts.json''"

definition INVITES_FILE :: string where
  "INVITES_FILE = ''data/invites.json''"

fun isinstance_dict :: "json \<Rightarrow> bool" where
  "isinstance_dict (JDict d) = True"
| "isinstance_dict _ = False"

text \<open>
  \<open>load_json\<close>: the inner \<^verbatim>\<open>try\<close> reads the file and rejects a document that is not a
  dictionary; \<^verbatim>\<open>except (json.JSONDecodeError, FileNotFoundError)\<close> writes the default
  straight to the file and returns it; the outer \<^verbatim>\<open>except Exception\<close> returns the
  default for every other failure (of \<^verbatim>\<open>makedirs\<close>, of the read, of the healing write).
  No exception leaves the function.
\<close>

definition load_json_read :: "string \<Rightarrow> world \<Rightarrow> (exn + json) \<times> world" where
  "load_json_read filename w =
     (case read_json filename w of
        (Inr data, w') \<Rightarrow>
          if \<not> isinstance_dict data then (Inl JSONDecodeError, w') else (Inr data, w')
      | (Inl e, w') \<Rightarrow> (Inl e, w'))"

definition load_json :: "string \<Rightarrow> json \<Rightarrow> world \<Rightarrow> json \<times> world" where
  "load_json filename dflt w =
     (case os_makedirs w of
        (Inl e, w1) \<Rightarrow> (dflt, w1)
      | (Inr u, w1) \<Rightarrow>
          (case load_json_read filename w1 of
             (Inr data, w2) \<Rightarrow> (data, w2)
           | (Inl e, w2) \<Rightarrow>
               if e = JSONDecodeError \<or> e = FileNotFoundError
               then (case write_json filename dflt w2 of
                       (Inr u, w3) \<Rightarrow> (dflt, w3)
                     | (Inl e', w3) \<Rightarrow> (dflt, w3))
               else (dflt, w2)))"

text \<open>
  \<open>save_json\<close>: a document that is not a dictionary raises \<^verbatim>\<open>ValueError\<close> before any
  file is touched. Otherwise the document goes to \<^verbatim>\<open>filename.tmp\<close> and is renamed over the
  target; on any failure the temporary file is removed if it exists and the exception is
  raised again (an exception of \<^verbatim>\<open>os.remove\<close> replaces it).
\<close>

definition save_json_try :: "string \<Rightarrow> string \<Rightarrow> json \<Rightarrow> world \<Rightarrow> (exn + unit) \<times> world" where
  "save_json_try filename temp_file data w =
     (case os_makedirs w of
        (Inl e, w1) \<Rightarrow> (Inl e, w1)
      | (Inr u, w1) \<Rightarrow>
          (case write_json temp_file data w1 of
             (Inl e, w2) \<Rightarrow> (Inl e, w2)
           | (Inr u, w2) \<Rightarrow> os_replace temp_file filename w2))"

definition save_json :: "string \<Rightarrow> json \<Rightarrow> world \<Rightarrow> (exn + unit) \<times> world" where
  "save_json filename data w =
     (if \<not> isinstance_dict data then (Inl ValueError, w)
      else
        let temp_file = filename @ ''.tmp'' in
        (case save_json_try filename temp_file data w of
           (Inr u, w1) \<Rightarrow> (Inr (), w1)
         | (Inl e, w1) \<Rightarrow>
             if os_path_exists temp_file w1
             then (case os_remove temp_file w1 of
                     (Inl e', w2) \<Rightarrow> (Inl e', w2)
                   | (Inr u, w2) \<Rightarrow> (Inl e, w2))
             else (Inl e, w1)))"

definition load_accounts :: "world \<Rightarrow> (exn + json) \<times> world" where
  "load_accounts w =
     (case load_json ACCOUNTS_FILE (JDict [(''accounts'', JList [])]) w of
        (data, w') \<Rightarrow> (py_getitem data ''accounts'', w'))"

definition save_accounts :: "json \<Rightarrow> world \<Rightarrow> (exn + unit) \<times> world" where
  "save_accounts accounts w = save_json ACCOUNTS_FILE (JDict [(''accounts'', accounts)]) w"

definition load_invites :: "world \<Rightarrow> json \<times> world" where
  "load_invites w = load_json INVITES_FILE (JDict []) w"

definition save_invites :: "json \<Rightarrow> world \<Rightarrow> (exn + unit) \<times> world" where
  "save_invites invites w = save_json INVITES_FILE invites w"

section \<open>The ledger in memory\<close>

text \<open>
  \<open>ensure_guild\<close> is \<^verbatim>\<open>if guild_id not in invites: invites[guild_id] = {}\<close> and
  \<open>ensure_user\<close> is \<^verbatim>\<open>if user_id not in invites[guild_id]: invites[guild_id][user_id] = 0\<close>.
  The inner dictionary is reached only through \<^verbatim>\<open>invites[guild_id]\<close>, so its mutation in
  place is the outer dictionary with the new inner one stored back.
\<close>

definition ensure_guild :: "json \<Rightarrow> string \<Rightarrow> exn + json" where
  "ensure_guild invites guild_id =
     bind (py_contains invites guild_id) (\<lambda>present.
       if \<not> present then py_setitem invites guild_id (JDict []) else Inr invites)"

definition ensure_user :: "json \<Rightarrow> string \<Rightarrow> string \<Rightarrow> exn + json" where
  "ensure_user invites guild_id user_id =
     bind (py_getitem invites guild_id) (\<lambda>members.
     bind (py_contains members user_id) (\<lambda>present.
       if \<not> present
       then bind (py_setitem members user_id (JInt 0)) (\<lambda>members'.
              py_setitem invites guild_id members')
       else Inr invites))"

definition initialize_user_invites ::
  "json \<Rightarrow> string \<Rightarrow> string \<Rightarrow> world \<Rightarrow> (exn + json) \<times> world" where
  "initialize_user_invites invites guild_id user_id w =
     (case bind (ensure_guild invites guild_id) (\<lambda>i. ensure_user i guild_id user_id) of
        Inl e \<Rightarrow> (Inl e, w)
      | Inr invites' \<Rightarrow>
          (case save_invites invites' w of
             (Inl e, w') \<Rightarrow> (Inl e, w')
           | (Inr u, w') \<Rightarrow> (Inr invites', w')))"

text \<open>
  \<^verbatim>\<open>invites[guild_id][user_id]\<close> read, read as a number, and rewritten.
\<close>

definition get_entry :: "json \<Rightarrow> string \<Rightarrow> string \<Rightarrow> exn + json" where
  "get_entry invites guild_id user_id =
     bind (py_getitem invites guild_id) (\<lambda>members. py_getitem members user_id)"

definition get_count :: "json \<Rightarrow> string \<Rightarrow> string \<Rightarrow> exn + int" where
  "get_count invites guild_id user_id = bind (get_entry invites guild_id user_id) py_int"

definition set_count :: "json \<Rightarrow> string \<Rightarrow> string \<Rightarrow> int \<Rightarrow> exn + json" where
  "set_count invites guild_id user_id n =
     bind (py_getitem invites guild_id) (\<lambda>members.
     bind (py_setitem members user_id (JInt n)) (\<lambda>members'.
       py_setitem invites guild_id members'))"

section \<open>The invite cache\<close>

text \<open>
  The fields of a platform invite that the handlers read: \<^verbatim>\<open>invite.code\<close>,
  \<^verbatim>\<open>invite.uses\<close> and \<^verbatim>\<open>invite.inviter.id\<close>. A fetch of a guild's invites
  (\<^verbatim>\<open>await guild.invites()\<close>) returns the list or raises.
\<close>

record invite =
  code :: string
  uses :: int
  inviter_id :: int

definition snapshot :: "invite list \<Rightarrow> string \<Rightarrow> int option" where
  "snapshot invites = map_of (rev (map (\<lambda>i. (code i, uses i)) invites))"

text \<open>
  \<open>on_guild_join\<close>: the snapshot replaces the guild's cache; \<^verbatim>\<open>discord.Forbidden\<close> is
  caught and leaves the cache as it was (absent for a guild never fetched).
\<close>

definition on_guild_join :: "int \<Rightarrow> exn + invite list \<Rightarrow> world \<Rightarrow> (exn + unit) \<times> world" where
  "on_guild_join guild fetched w =
     (case fetched of
        Inr invites \<Rightarrow> (Inr (), w\<lparr>invite_cache := (invite_cache w)(guild \<mapsto> snapshot invites)\<rparr>)
      | Inl e \<Rightarrow> if e = Forbidden then (Inr (), w) else (Inl e, w))"

text \<open>\<open>on_ready\<close> does the same for every guild of the bot, in order.\<close>

fun on_ready :: "(int \<times> (exn + invite list)) list \<Rightarrow> world \<Rightarrow> (exn + unit) \<times> world" where
  "on_ready [] w = (Inr (), w)"
| "on_ready ((guild, fetched) # guilds) w =
     (case on_guild_join guild fetched w of
        (Inl e, w') \<Rightarrow> (Inl e, w')
      | (Inr u, w') \<Rightarrow> on_ready guilds w')"

definition on_invite_create :: "int \<Rightarrow> invite \<Rightarrow> world \<Rightarrow> world" where
  "on_invite_create guild i w =
     (let cache = (case invite_cache w guild of None \<Rightarrow> Map.empty | Some c \<Rightarrow> c)
      in w\<lparr>invite_cache := (invite_cache w)(guild \<mapsto> cache(code i \<mapsto> uses i))\<rparr>)"

section \<open>Reconciliation on a member's arrival\<close>

text \<open>
  \<^verbatim>\<open>if inviter_id not in invites[guild_id]: invites[guild_id][inviter_id] = 0\<close> followed by
  \<^verbatim>\<open>invites[guild_id][inviter_id] += 1\<close>.
\<close>

definition credit :: "json \<Rightarrow> string \<Rightarrow> string \<Rightarrow> exn + json" where
  "credit invites guild_id inviter =
     bind (ensure_user invites guild_id inviter) (\<lambda>invites1.
     bind (get_count invites1 guild_id inviter) (\<lambda>n.
       set_count invites1 guild_id inviter (n + 1)))"

text \<open>
  The loop over the fetched invites, with its \<^verbatim>\<open>break\<close>: the state is the ledger in
  memory and the cache. \<^verbatim>\<open>invite_cache[member.guild.id]\<close> raises \<^verbatim>\<open>KeyError\<close> for a
  guild with no cache; \<^verbatim>\<open>.get(invite.code, 0)\<close> reads an absent code as 0.
\<close>

fun scan_invites ::
  "int \<Rightarrow> invite list \<Rightarrow> json \<Rightarrow> (int \<Rightarrow> (string \<Rightarrow> int option) option) \<Rightarrow>
   exn + json \<times> (int \<Rightarrow> (string \<Rightarrow> int option) option)" where
  "scan_invites guild [] invites cache = Inr (invites, cache)"
| "scan_invites guild (i # rest) invites cache =
     (case cache guild of
        None \<Rightarrow> Inl KeyError
      | Some c \<Rightarrow>
          let old_uses = (case c (code i) of None \<Rightarrow> 0 | Some n \<Rightarrow> n) in
          if uses i > old_uses
          then bind (credit invites (py_str guild) (py_str (inviter_id i))) (\<lambda>invites'.
                 Inr (invites', cache(guild \<mapsto> c(code i \<mapsto> uses i))))
          else scan_invites guild rest invites cache)"

text \<open>
  \<open>on_member_join\<close>: the guild's entry is created before the \<^verbatim>\<open>try\<close>; inside it the fetch,
  the loop and \<^verbatim>\<open>save_invites\<close>; only \<^verbatim>\<open>discord.Forbidden\<close> is caught.
\<close>

definition on_member_join_try ::
  "int \<Rightarrow> exn + invite list \<Rightarrow> json \<Rightarrow> world \<Rightarrow> (exn + unit) \<times> world" where
  "on_member_join_try guild fetched invites w =
     (case fetched of
        Inl e \<Rightarrow> (Inl e, w)
      | Inr new_invites \<Rightarrow>
          (case scan_invites guild new_invites invites (invite_cache w) of
             Inl e \<Rightarrow> (Inl e, w)
           | Inr (invites', cache') \<Rightarrow> save_invites invites' (w\<lparr>invite_cache := cache'\<rparr>)))"

definition on_member_join :: "int \<Rightarrow> exn + invite list \<Rightarrow> world \<Rightarrow> (exn + unit) \<times> world" where
  "on_member_join guild fetched w =
     (case load_invites w of
        (invites, w1) \<Rightarrow>
          (case ensure_guild invites (py_str guild) of
             Inl e \<Rightarrow> (Inl e, w1)
           | Inr invites1 \<Rightarrow>
               (case on_member_join_try guild fetched invites1 w1 of
                  (Inl e, w2) \<Rightarrow> if e = Forbidden then (Inr (), w2) else (Inl e, w2)
                | (Inr u, w2) \<Rightarrow> (Inr (), w2))))"

section \<open>The commands\<close>

text \<open>
  What a command sends: the private message with the account, the notice to the logging
  channel, and the response to the interaction. The environment of a claim says whether the
  private message goes through (\<^verbatim>\<open>await interaction.user.send\<close>) and, when
  \<^verbatim>\<open>bot.get_channel\<close> finds the logging channel, whether the notice does.
\<close>

datatype response =
    InviteCount json
  | NeedInvite
  | NoAccounts
  | Claimed
  | EnableDMs
  | ClaimError
  | CheckError
  | AccountAdded
  | AddError
  | Remaining nat
  | RemainingError

datatype message = DirectMessage json | LogNotice | Respond response

record interaction =
  interaction_guild_id :: int
  interaction_user_id :: int

record delivery =
  user_send :: "exn + unit"
  log_channel :: "(exn + unit) option"

definition check_invites :: "interaction \<Rightarrow> world \<Rightarrow> message list \<times> world" where
  "check_invites i w =
     (case load_invites w of
        (invites, w1) \<Rightarrow>
          let guild_id = py_str (interaction_guild_id i); user_id = py_str (interaction_user_id i) in
          (case initialize_user_invites invites guild_id user_id w1 of
             (Inl e, w2) \<Rightarrow> ([Respond CheckError], w2)
           | (Inr invites', w2) \<Rightarrow>
               (case get_entry invites' guild_id user_id of
                  Inl e \<Rightarrow> ([Respond CheckError], w2)
                | Inr invite_count \<Rightarrow> ([Respond (InviteCount invite_count)], w2))))"

text \<open>
  The inner \<^verbatim>\<open>try\<close> of \<open>claim\<close>: the private message first, with \<^verbatim>\<open>accounts[0]\<close>; then
  \<^verbatim>\<open>accounts.pop(0)\<close> and \<^verbatim>\<open>save_accounts\<close>; then the decrement and
  \<^verbatim>\<open>save_invites\<close>; then the notice and the response. An exception stops it where it is
  raised, with what was sent and written so far.
\<close>

definition claim_commit ::
  "json \<Rightarrow> json \<Rightarrow> string \<Rightarrow> string \<Rightarrow> delivery \<Rightarrow> world \<Rightarrow>
   (exn + unit) \<times> message list \<times> world" where
  "claim_commit accounts invites guild_id user_id env w =
     (case py_first accounts of
        Inl e \<Rightarrow> (Inl e, [], w)
      | Inr first \<Rightarrow>
     (case user_send env of
        Inl e \<Rightarrow> (Inl e, [], w)
      | Inr u \<Rightarrow>
     (case py_pop_first accounts of
        Inl e \<Rightarrow> (Inl e, [DirectMessage first], w)
      | Inr (account, accounts') \<Rightarrow>
     (case save_accounts accounts' w of
        (Inl e, w1) \<Rightarrow> (Inl e, [DirectMessage first], w1)
      | (Inr u, w1) \<Rightarrow>
     (case py_len accounts' of
        Inl e \<Rightarrow> (Inl e, [DirectMessage first], w1)
      | Inr left \<Rightarrow>
     (case bind (get_count invites guild_id user_id) (\<lambda>n.
             set_count invites guild_id user_id (n - 1)) of
        Inl e \<Rightarrow> (Inl e, [DirectMessage first], w1)
      | Inr invites' \<Rightarrow>
     (case save_invites invites' w1 of
        (Inl e, w2) \<Rightarrow> (Inl e, [DirectMessage first], w2)
      | (Inr u, w2) \<Rightarrow>
     (case log_channel env of
        None \<Rightarrow> (Inr (), [DirectMessage first, Respond Claimed], w2)
      | Some (Inl e) \<Rightarrow> (Inl e, [DirectMessage first], w2)
      | Some (Inr u) \<Rightarrow>
          (Inr (), [DirectMessage first, LogNotice, Respond Claimed], w2)))))))))"

text \<open>
  \<^verbatim>\<open>except discord.Forbidden\<close> of the inner \<^verbatim>\<open>try\<close> answers that private messages must
  be enabled, whichever call raised it.
\<close>

definition claim_deliver ::
  "json \<Rightarrow> json \<Rightarrow> string \<Rightarrow> string \<Rightarrow> delivery \<Rightarrow> world \<Rightarrow>
   (exn + unit) \<times> message list \<times> world" where
  "claim_deliver accounts invites guild_id user_id env w =
     (case claim_commit accounts invites guild_id user_id env w of
        (Inl e, sent, w') \<Rightarrow>
          if e = Forbidden then (Inr (), sent @ [Respond EnableDMs], w') else (Inl e, sent, w')
      | (Inr u, sent, w') \<Rightarrow> (Inr (), sent, w'))"

text \<open>
  The body of the outer \<^verbatim>\<open>try\<close> of \<open>claim\<close> (\<open>claim_from_pool\<close> is its part from
  \<^verbatim>\<open>load_accounts\<close> on), and \<open>claim\<close> itself: the outer
  \<^verbatim>\<open>except Exception\<close> answers with the generic error (no response was sent before an
  exception: every response is the last call of its path).
\<close>

definition claim_from_pool ::
  "json \<Rightarrow> string \<Rightarrow> string \<Rightarrow> delivery \<Rightarrow> world \<Rightarrow>
   (exn + unit) \<times> message list \<times> world" where
  "claim_from_pool invites guild_id user_id env w =
     (case load_accounts w of
        (Inl e, w1) \<Rightarrow> (Inl e, [], w1)
      | (Inr accounts, w1) \<Rightarrow>
     (case py_len accounts of
        Inl e \<Rightarrow> (Inl e, [], w1)
      | Inr available \<Rightarrow>
          if \<not> py_bool accounts then (Inr (), [Respond NoAccounts], w1)
          else claim_deliver accounts invites guild_id user_id env w1))"

definition claim_try :: "interaction \<Rightarrow> delivery \<Rightarrow> world \<Rightarrow> (exn + unit) \<times> message list \<times> world" where
  "claim_try i env w =
     (case load_invites w of
        (invites, w1) \<Rightarrow>
     let guild_id = py_str (interaction_guild_id i); user_id = py_str (interaction_user_id i) in
     (case initialize_user_invites invites guild_id user_id w1 of
        (Inl e, w2) \<Rightarrow> (Inl e, [], w2)
      | (Inr invites', w2) \<Rightarrow>
     (case get_count invites' guild_id user_id of
        Inl e \<Rightarrow> (Inl e, [], w2)
      | Inr user_invites \<Rightarrow>
          if user_invites < 1 then (Inr (), [Respond NeedInvite], w2)
          else claim_from_pool invites' guild_id user_id env w2)))"

definition claim :: "interaction \<Rightarrow> delivery \<Rightarrow> world \<Rightarrow> message list \<times> world" where
  "claim i env w =
     (case claim_try i env w of
        (Inl e, sent, w') \<Rightarrow> (sent @ [Respond ClaimError], w')
      | (Inr u, sent, w') \<Rightarrow> (sent, w'))"

definition add_account :: "string \<Rightarrow> world \<Rightarrow> message list \<times> world" where
  "add_account account w =
     (case load_accounts w of
        (Inl e, w1) \<Rightarrow> ([Respond AddError], w1)
      | (Inr accounts, w1) \<Rightarrow>
          (case py_append accounts (JStr account) of
             Inl e \<Rightarrow> ([Respond AddError], w1)
           | Inr accounts' \<Rightarrow>
               (case save_accounts accounts' w1 of
                  (Inl e, w2) \<Rightarrow> ([Respond AddError], w2)
                | (Inr u, w2) \<Rightarrow> ([Respond AccountAdded], w2))))"

definition remaining :: "world \<Rightarrow> message list \<times> world" where
  "remaining w =
     (case load_accounts w of
        (Inl e, w1) \<Rightarrow> ([Respond RemainingError], w1)
      | (Inr accounts, w1) \<Rightarrow>
          (case py_len accounts of
             Inl e \<Rightarrow> ([Respond RemainingError], w1)
           | Inr n \<Rightarrow> ([Respond (Remaining n)], w1)))"

section \<open>What is persisted\<close>

text \<open>
  The pool and a member's balance as the next command will find them on disk. A ledger file
  that is absent, unparsable or not a dictionary is read as the empty ledger, and a member
  with no entry has balance 0 (both are initialised so on first use); \<open>None\<close> marks a
  document of the wrong shape at that place.
\<close>

definition unreadable :: "world \<Rightarrow> string \<Rightarrow> bool" where
  "unreadable w filename =
     (case files w filename of
        None \<Rightarrow> True
      | Some Unparsable \<Rightarrow> True
      | Some (Document data) \<Rightarrow> \<not> isinstance_dict data)"

definition ledger :: "world \<Rightarrow> json" where
  "ledger w =
     (case files w INVITES_FILE of
        Some (Document (JDict d)) \<Rightarrow> JDict d
      | _ \<Rightarrow> JDict [])"

fun balance_in :: "json \<Rightarrow> string \<Rightarrow> string \<Rightarrow> int option" where
  "balance_in (JDict d) guild_id user_id =
     (case map_of d guild_id of
        None \<Rightarrow> Some 0
      | Some (JDict members) \<Rightarrow>
          (case map_of members user_id of
             None \<Rightarrow> Some 0
           | Some (JInt n) \<Rightarrow> Some n
           | Some (JBool b) \<Rightarrow> Some (if b then 1 else 0)
           | Some _ \<Rightarrow> None)
      | Some _ \<Rightarrow> None)"
| "balance_in _ guild_id user_id = None"

definition balance :: "world \<Rightarrow> string \<Rightarrow> string \<Rightarrow> int option" where
  "balance w guild_id user_id = balance_in (ledger w) guild_id user_id"

definition pool :: "world \<Rightarrow> json list option" where
  "pool w =
     (case files w ACCOUNTS_FILE of
        Some (Document (JDict d)) \<Rightarrow>
          (case map_of d ''accounts'' of Some (JList accounts) \<Rightarrow> Some accounts | _ \<Rightarrow> None)
      | _ \<Rightarrow> Some [])"

fun delivered :: "message list \<Rightarrow> json list" where
  "delivered [] = []"
| "delivered (DirectMessage account # ms) = account # delivered ms"
| "delivered (m # ms) = delivered ms"

section \<open>The invite that was used\<close>

text \<open>
  The cached count of an invite code in a guild's snapshot, an absent code counting as 0, and
  the test that an invite's live count exceeds it. The first invite of the fetched list that
  passes the test is \<open>find (used c) invites\<close>.
\<close>

definition cached :: "(string \<Rightarrow> int option) \<Rightarrow> string \<Rightarrow> int" where
  "cached c k = (case c k of None \<Rightarrow> 0 | Some n \<Rightarrow> n)"

definition used :: "(string \<Rightarrow> int option) \<Rightarrow> invite \<Rightarrow> bool" where
  "used c i = (uses i > cached c (code i))"

section \<open>Ledgers with no negative balance, and runs of the bot\<close>

text \<open>
  A ledger is in order when it is a dictionary of dictionaries whose values are integers, none
  of them negative.
\<close>

fun nonneg :: "json \<Rightarrow> bool" where
  "nonneg (JInt n) = (0 \<le> n)"
| "nonneg _ = False"

fun members_ok :: "json \<Rightarrow> bool" where
  "members_ok (JDict members) = list_all (\<lambda>(user_id, b). nonneg b) members"
| "members_ok _ = False"

fun balances_ok :: "json \<Rightarrow> bool" where
  "balances_ok (JDict d) = list_all (\<lambda>(guild_id, members). members_ok members) d"
| "balances_ok _ = False"

text \<open>
  The events the bot handles, one at a time. A run gives each event the outcomes of the calls
  of the operating system made while it is handled; the answers of the platform are part of
  the event.
\<close>

datatype event =
    CheckInvites interaction
  | Claim interaction delivery
  | MemberJoin int "exn + invite list"
  | AddAccount string
  | Remaining
  | Ready "(int \<times> (exn + invite list)) list"
  | GuildJoin int "exn + invite list"
  | InviteCreate int invite

fun handle :: "event \<Rightarrow> world \<Rightarrow> world" where
  "handle (CheckInvites i) w = snd (check_invites i w)"
| "handle (Claim i env) w = snd (claim i env w)"
| "handle (MemberJoin guild fetched) w = snd (on_member_join guild fetched w)"
| "handle (AddAccount account) w = snd (add_account account w)"
| "handle Remaining w = snd (remaining w)"
| "handle (Ready guilds) w = snd (on_ready guilds w)"
| "handle (GuildJoin guild fetched) w = snd (on_guild_join guild fetched w)"
| "handle (InviteCreate guild i) w = on_invite_create guild i w"

fun run :: "(event \<times> io list) list \<Rightarrow> world \<Rightarrow> world" where
  "run [] w = w"
| "run ((ev, os) # rest) w = run rest (handle ev (w\<lparr>outcomes := os\<rparr>))"

section \<open>Worlds to run the handlers on\<close>

definition fresh_world :: world where
  "fresh_world = \<lparr>files = Map.empty, invite_cache = Map.empty, outcomes = []\<rparr>"


definition stocked_world :: world where
  "stocked_world =
     \<lparr>files = [ACCOUNTS_FILE \<mapsto> Document (JDict [(''accounts'', JList [JStr ''X'', JStr ''Y''])]),
                INVITES_FILE \<mapsto> Document (JDict [(''7'', JDict [(''42'', JInt 2)])])],
      invite_cache = Map.empty, outcomes = []\<rparr>"

definition member42 :: interaction where
  "member42 = \<lparr>interaction_guild_id = 7, interaction_user_id = 42\<rparr>"

definition ledger_write_fails :: world where
  "ledger_write_fails =
     stocked_world\<lparr>outcomes := [Succeeds, Succeeds, Succeeds, Succeeds, Succeeds,
       Succeeds, Succeeds, Succeeds, Succeeds, Succeeds, Fails]\<rparr>"

definition dm_accepted :: delivery where
  "dm_accepted = \<lparr>user_send = Inr (), log_channel = None\<rparr>"

definition an_invite :: invite where
  "an_invite = \<lparr>code = ''abc'', uses = 1, inviter_id = 42\<rparr>"



definition invite_B5 :: invite where
  "invite_B5 = \<lparr>code = ''B'', uses = 5, inviter_id = 42\<rparr>"



definition three_claims :: "(event \<times> io list) list" where
  "three_claims =
     [(Claim member42 dm_accepted, []), (Claim member42 dm_accepted, [Succeeds, Fails]),
      (Claim member42 dm_accepted, [])]"

section \<open>The store: round trip and self-healing\<close>

lemma next_io_nil: "outcomes w = [] \<Longrightarrow> next_io w = (Succeeds, w)"
  by (simp add: next_io_def)

lemma save_json_ok:
  "outcomes w = [] \<Longrightarrow>
   save_json filename (JDict d) w =
     (Inr (), w\<lparr>files := (files w)(filename @ ''.tmp'' := None, filename \<mapsto> Document (JDict d))\<rparr>)"
  by (simp add: save_json_def save_json_try_def os_makedirs_def write_json_def os_replace_def
      next_io_nil fun_upd_twist)

lemma save_json_target:
  "case save_json filename (JDict d) w of
     (Inr u, w1) \<Rightarrow> files w1 filename = Some (Document (JDict d))
   | (Inl e, w1) \<Rightarrow> files w1 filename = files w filename"
  by (simp add: save_json_def save_json_try_def os_makedirs_def write_json_def os_replace_def
      os_remove_def os_path_exists_def next_io_def Let_def
      split: list.split io.split option.split prod.split sum.split)

lemma load_json_returns:
  "fst (load_json filename dflt w) = dflt \<or>
   files w filename = Some (Document (fst (load_json filename dflt w)))"
  by (simp add: load_json_def load_json_read_def read_json_def os_makedirs_def write_json_def
      next_io_def
      split: list.split io.split option.split content.split prod.split sum.split)

lemma load_json_ok:
  "outcomes w = [] \<Longrightarrow>
   load_json filename dflt w =
     (if unreadable w filename
      then (dflt, w\<lparr>files := (files w)(filename \<mapsto> Document dflt)\<rparr>)
      else (case files w filename of Some (Document data) \<Rightarrow> (data, w) | _ \<Rightarrow> (dflt, w)))"
  by (simp add: load_json_def load_json_read_def read_json_def os_makedirs_def write_json_def
      next_io_nil unreadable_def split: option.split content.split)








section \<open>The claim command\<close>

lemma balance_in_cases:
  assumes "balance_in L g u = Some n"
  obtains gs where "L = JDict gs" "map_of gs g = None" "n = 0"
  | gs us where "L = JDict gs" "map_of gs g = Some (JDict us)" "map_of us u = None" "n = 0"
  | gs us v where "L = JDict gs" "map_of gs g = Some (JDict us)" "map_of us u = Some v"
      "py_int v = Inr n"
  using assms
  by (cases L) (auto split: option.splits json.splits if_splits)

lemma balance_in_update_other:
  "g' \<noteq> g \<Longrightarrow> balance_in (JDict (AList.update g m gs)) g' u' = balance_in (JDict gs) g' u'"
  by (simp add: update_conv')

lemma balance_in_update_same:
  "balance_in (JDict (AList.update g (JDict us) gs)) g u' =
     (case map_of us u' of None \<Rightarrow> Some 0 | Some (JInt n) \<Rightarrow> Some n
      | Some (JBool b) \<Rightarrow> Some (if b then 1 else 0) | Some _ \<Rightarrow> None)"
  by (simp add: update_conv')

lemma initialize_pure:
  assumes "balance_in L g u = Some n"
  shows "\<exists>L'. bind (ensure_guild L g) (\<lambda>i. ensure_user i g u) = Inr L'
           \<and> isinstance_dict L' \<and> get_count L' g u = Inr n
           \<and> (\<forall>g' u'. balance_in L' g' u' = balance_in L g' u')
           \<and> (1 \<le> n \<longrightarrow> L' = L)"
  using assms
proof (cases rule: balance_in_cases)
  case (1 gs)
  then show ?thesis
    by (auto simp add: bind_def ensure_guild_def ensure_user_def get_count_def get_entry_def
        update_conv' split: option.splits json.splits)
next
  case (2 gs us)
  then show ?thesis
    by (auto simp add: bind_def ensure_guild_def ensure_user_def get_count_def get_entry_def
        update_conv' split: option.splits json.splits)
next
  case (3 gs us v)
  then show ?thesis
    by (auto simp add: bind_def ensure_guild_def ensure_user_def get_count_def get_entry_def
        update_conv' split: option.splits json.splits)
qed

lemma file_names [simp]:
  "INVITES_FILE \<noteq> ACCOUNTS_FILE" "ACCOUNTS_FILE \<noteq> INVITES_FILE"
  "INVITES_FILE @ ''.tmp'' \<noteq> ACCOUNTS_FILE" "ACCOUNTS_FILE \<noteq> INVITES_FILE @ ''.tmp''"
  "ACCOUNTS_FILE @ ''.tmp'' \<noteq> INVITES_FILE" "INVITES_FILE \<noteq> ACCOUNTS_FILE @ ''.tmp''"
  by (simp_all add: INVITES_FILE_def ACCOUNTS_FILE_def)

lemma ledger_file:
  assumes "balance w g u = Some n" "1 \<le> n"
  obtains gs us v where "files w INVITES_FILE = Some (Document (JDict gs))"
    "map_of gs g = Some (JDict us)" "map_of us u = Some v" "py_int v = Inr n"
proof -
  from assms(1) have "balance_in (ledger w) g u = Some n" by (simp add: balance_def)
  then show ?thesis
  proof (cases rule: balance_in_cases)
    case (3 gs us v)
    then have "files w INVITES_FILE = Some (Document (JDict gs))"
      by (auto simp add: ledger_def split: option.splits content.splits json.splits)
    with 3 that show ?thesis by blast
  qed (use assms(2) in simp_all)
qed

lemma pool_file:
  assumes "pool w = Some (x # rest)"
  obtains ad where "files w ACCOUNTS_FILE = Some (Document (JDict ad))"
    "map_of ad ''accounts'' = Some (JList (x # rest))"
  using assms
  by (auto simp add: pool_def split: option.splits content.splits json.splits)

lemma claim_try_funded:
  assumes "outcomes w = []"
    and "files w INVITES_FILE = Some (Document (JDict gs))"
    and "map_of gs (py_str (interaction_guild_id i)) = Some (JDict us)"
    and "map_of us (py_str (interaction_user_id i)) = Some v"
    and "py_int v = Inr n" "1 \<le> n"
    and "files w ACCOUNTS_FILE = Some (Document (JDict ad))"
    and "map_of ad ''accounts'' = Some (JList (x # rest))"
  shows "claim_try i env w =
     claim_deliver (JList (x # rest)) (JDict gs)
       (py_str (interaction_guild_id i)) (py_str (interaction_user_id i)) env
       (w\<lparr>files := (files w)(INVITES_FILE @ ''.tmp'' := None,
            INVITES_FILE \<mapsto> Document (JDict gs))\<rparr>)"
  using assms
  by (simp add: claim_try_def claim_from_pool_def load_invites_def load_json_ok unreadable_def Let_def
      initialize_user_invites_def ensure_guild_def ensure_user_def bind_def
      save_invites_def save_json_ok get_count_def get_entry_def load_accounts_def)

lemma py_str_7: "py_str 7 = ''7''" by code_simp
lemma py_str_42: "py_str 42 = ''42''" by code_simp

lemma load_invites_ok:
  "outcomes w = [] \<Longrightarrow>
   load_invites w =
     (ledger w,
      w\<lparr>files := (if unreadable w INVITES_FILE
                    then (files w)(INVITES_FILE \<mapsto> Document (JDict [])) else files w)\<rparr>)"
  by (auto simp add: load_invites_def load_json_ok ledger_def unreadable_def
      split: option.splits content.splits json.splits)

lemma isinstance_dictE:
  assumes "isinstance_dict j" obtains d where "j = JDict d"
  using assms by (cases j) simp_all

lemma delivered_append_respond [simp]: "delivered (sent @ [Respond r]) = delivered sent"
  by (induction sent rule: delivered.induct) simp_all

lemma ledger_is_dict: "\<exists>gs. ledger w = JDict gs"
  by (simp add: ledger_def split: option.split content.split json.split)

lemma get_count_cases:
  assumes "get_count (JDict gs) g u = Inr n"
  obtains us v where "map_of gs g = Some (JDict us)" "map_of us u = Some v" "py_int v = Inr n"
proof -
  from assms obtain m where m: "map_of gs g = Some m"
    by (auto simp add: get_count_def get_entry_def bind_def split: option.splits)
  with assms obtain us where us: "m = JDict us"
    by (cases m) (auto simp add: get_count_def get_entry_def bind_def)
  with assms m obtain v where "map_of us u = Some v" "py_int v = Inr n"
    by (auto simp add: get_count_def get_entry_def bind_def split: option.splits)
  with m us that show ?thesis by blast
qed

lemma get_count_balance:
  assumes "get_count (JDict gs) g u = Inr n"
  shows "balance_in (JDict gs) g u = Some n"
  using assms
proof (cases rule: get_count_cases)
  case (1 us v)
  then show ?thesis by (cases v) (auto split: if_splits)
qed

lemma set_count_balance:
  assumes "get_count (JDict gs) g u = Inr n"
  shows "\<exists>d. set_count (JDict gs) g u m = Inr (JDict d) \<and> balance_in (JDict d) g u = Some m
           \<and> (\<forall>g' u'. (g', u') \<noteq> (g, u) \<longrightarrow>
                balance_in (JDict d) g' u' = balance_in (JDict gs) g' u')"
  using assms
proof (cases rule: get_count_cases)
  case (1 us v)
  have "set_count (JDict gs) g u m
          = Inr (JDict (AList.update g (JDict (AList.update u (JInt m) us)) gs))"
    using 1 by (simp add: set_count_def bind_def)
  moreover have "balance_in (JDict (AList.update g (JDict (AList.update u (JInt m) us)) gs)) g u
          = Some m"
    by (simp add: update_conv')
  moreover have "balance_in (JDict (AList.update g (JDict (AList.update u (JInt m) us)) gs)) g' u'
          = balance_in (JDict gs) g' u'" if "(g', u') \<noteq> (g, u)" for g' u'
    using that 1 by (cases "g' = g") (simp_all add: update_conv')
  ultimately show ?thesis by blast
qed

lemma initialize_malformed:
  assumes "balance_in (JDict gs) g u = None"
    and "bind (ensure_guild (JDict gs) g) (\<lambda>i. ensure_user i g u) = Inr L'"
  shows "L' = JDict gs \<and> (\<exists>e. get_count L' g u = Inl e)"
proof (cases "map_of gs g")
  case None
  with assms(1) show ?thesis by simp
next
  case (Some m)
  show ?thesis
  proof (cases m)
    case (JDict us)
    with Some assms show ?thesis
      by (cases "map_of us u")
         (auto simp add: bind_def ensure_guild_def ensure_user_def get_count_def get_entry_def
           split: json.splits if_splits)
  qed (use Some assms in \<open>auto simp add: bind_def ensure_guild_def ensure_user_def
         get_count_def get_entry_def split: if_splits\<close>)
qed

lemma load_accounts_ok:
  assumes "outcomes w = []"
  shows "case load_accounts w of
           (r, w') \<Rightarrow> outcomes w' = [] \<and> pool w' = pool w
             \<and> files w' INVITES_FILE = files w INVITES_FILE
             \<and> (\<forall>xs. r = Inr (JList xs) \<longrightarrow> pool w = Some xs)"
  using assms
  by (auto simp add: load_accounts_def load_json_ok unreadable_def pool_def
      split: option.splits content.splits json.splits)

lemma claim_commit_ok:
  assumes "outcomes w = []" and "get_count (JDict gs) g u = Inr n"
  shows "case claim_commit accounts (JDict gs) g u env w of
           (r, sent, w') \<Rightarrow>
             w' = w \<or>
             (\<exists>x rest d. accounts = JList (x # rest) \<and> delivered sent = [x]
                \<and> set_count (JDict gs) g u (n - 1) = Inr (JDict d)
                \<and> files w' ACCOUNTS_FILE = Some (Document (JDict [(''accounts'', JList rest)]))
                \<and> files w' INVITES_FILE = Some (Document (JDict d)))"
proof -
  from set_count_balance [OF assms(2)] obtain d where
    d: "set_count (JDict gs) g u (n - 1) = Inr (JDict d)" by blast
  show ?thesis
  proof (cases "py_first accounts")
    case (Inl e)
    then show ?thesis by (simp add: claim_commit_def)
  next
    case first: (Inr first)
    show ?thesis
    proof (cases "user_send env")
      case (Inl e)
      with first show ?thesis by (simp add: claim_commit_def)
    next
      case sent: (Inr v)
      show ?thesis
      proof (cases "py_pop_first accounts")
        case (Inl e)
        with first sent show ?thesis by (simp add: claim_commit_def)
      next
        case (Inr p)
        then obtain x rest where a: "accounts = JList (x # rest)" "p = (x, JList rest)"
          by (cases accounts rule: py_pop_first.cases) auto
        with first have f: "first = x" by simp
        show ?thesis
          using assms d sent a f
          by (simp add: claim_commit_def save_accounts_def save_invites_def save_json_ok
              bind_def split: option.split sum.split)
      qed
    qed
  qed
qed

lemma claim_from_pool_ok:
  assumes "outcomes w = []" and "get_count (JDict gs) g u = Inr n"
  shows "case claim_from_pool (JDict gs) g u env w of
           (r, sent, w') \<Rightarrow>
             (pool w' = pool w \<and> files w' INVITES_FILE = files w INVITES_FILE) \<or>
             (\<exists>x rest d. pool w = Some (x # rest) \<and> delivered sent = [x]
                \<and> set_count (JDict gs) g u (n - 1) = Inr (JDict d)
                \<and> pool w' = Some rest
                \<and> files w' INVITES_FILE = Some (Document (JDict d)))"
proof -
  obtain r w1 where la: "load_accounts w = (r, w1)" by (cases "load_accounts w")
  with load_accounts_ok [OF assms(1)] have w1:
    "outcomes w1 = []" "pool w1 = pool w" "files w1 INVITES_FILE = files w INVITES_FILE"
    "\<And>xs. r = Inr (JList xs) \<Longrightarrow> pool w = Some xs"
    by auto
  show ?thesis
  proof (cases r)
    case (Inl e)
    with la w1 show ?thesis by (simp add: claim_from_pool_def)
  next
    case (Inr accounts)
    obtain r' sent w' where cc:
      "claim_commit accounts (JDict gs) g u env w1 = (r', sent, w')"
      by (cases "claim_commit accounts (JDict gs) g u env w1")
    from claim_commit_ok [OF w1(1) assms(2), of accounts env] cc
    consider "w' = w1"
      | x rest d where "accounts = JList (x # rest)" "delivered sent = [x]"
          "set_count (JDict gs) g u (n - 1) = Inr (JDict d)"
          "files w' ACCOUNTS_FILE = Some (Document (JDict [(''accounts'', JList rest)]))"
          "files w' INVITES_FILE = Some (Document (JDict d))"
      by auto
    then have "(pool w' = pool w \<and> files w' INVITES_FILE = files w INVITES_FILE) \<or>
             (\<exists>x rest d. pool w = Some (x # rest) \<and> delivered sent = [x]
                \<and> set_count (JDict gs) g u (n - 1) = Inr (JDict d)
                \<and> pool w' = Some rest
                \<and> files w' INVITES_FILE = Some (Document (JDict d)))"
    proof cases
      case 1
      with w1 show ?thesis by simp
    next
      case (2 x rest d)
      from 2(1) Inr w1(4) have "pool w = Some (x # rest)" by simp
      moreover from 2(4) have "pool w' = Some rest" by (simp add: pool_def)
      ultimately show ?thesis using 2 by blast
    qed
    then show ?thesis
      using la Inr cc w1
      by (auto simp add: claim_from_pool_def claim_deliver_def split: sum.splits)
  qed
qed

lemma ledger_doc: "files w INVITES_FILE = Some (Document (JDict d)) \<Longrightarrow> ledger w = JDict d"
  by (simp add: ledger_def)

lemma ledger_same: "files w' INVITES_FILE = files w INVITES_FILE \<Longrightarrow> ledger w' = ledger w"
  by (simp add: ledger_def)

lemma pool_same: "files w' ACCOUNTS_FILE = files w ACCOUNTS_FILE \<Longrightarrow> pool w' = pool w"
  by (simp add: pool_def)

lemma initialize_dict:
  assumes "bind (ensure_guild (JDict gs) g) (\<lambda>i. ensure_user i g u) = Inr L'"
  shows "isinstance_dict L'"
  using assms
  by (auto simp add: bind_def ensure_guild_def ensure_user_def
      split: option.splits sum.splits if_splits json.splits)





text \<open>
  Claim C4. A member whose balance is at least 1 claims from a non-empty pool, the private
  message is refused (\<^verbatim>\<open>discord.Forbidden\<close>) and no call of the operating system fails:
  the member is told to enable private messages, nothing is sent, and the accounts file and
  the ledger file hold what they held, the pool's first account included.
\<close>

theorem claim_delivery_refused:
  assumes "outcomes w = []"
    and "balance w (py_str (interaction_guild_id i)) (py_str (interaction_user_id i)) = Some n"
    and "1 \<le> n"
    and "pool w = Some (x # rest)"
    and "user_send env = Inl Forbidden"
  shows "case claim i env w of
           (sent, w') \<Rightarrow>
             sent = [Respond EnableDMs] \<and> delivered sent = []
             \<and> files w' ACCOUNTS_FILE = files w ACCOUNTS_FILE
             \<and> files w' INVITES_FILE = files w INVITES_FILE
             \<and> pool w' = Some (x # rest)"
proof -
  from assms(2,3) obtain gs us v where L:
    "files w INVITES_FILE = Some (Document (JDict gs))"
    "map_of gs (py_str (interaction_guild_id i)) = Some (JDict us)"
    "map_of us (py_str (interaction_user_id i)) = Some v" "py_int v = Inr n"
    by (rule ledger_file)
  from assms(4) obtain ad where P:
    "files w ACCOUNTS_FILE = Some (Document (JDict ad))"
    "map_of ad ''accounts'' = Some (JList (x # rest))"
    by (rule pool_file)
  show ?thesis
    using assms(4,5) L(1) P(1)
    by (simp add: claim_def claim_try_funded [OF assms(1) L assms(3) P]
        claim_deliver_def claim_commit_def pool_def)
qed

theorem claim_delivery_refused_witness:
  "outcomes stocked_world = [] \<and> balance stocked_world ''7'' ''42'' = Some 2 \<and> (1::int) \<le> 2
   \<and> pool stocked_world = Some [JStr ''X'', JStr ''Y'']
   \<and> (case claim member42 \<lparr>user_send = Inl Forbidden, log_channel = None\<rparr> stocked_world of
         (sent, w') \<Rightarrow>
           sent = [Respond EnableDMs] \<and> delivered sent = []
           \<and> files w' ACCOUNTS_FILE = files stocked_world ACCOUNTS_FILE
           \<and> files w' INVITES_FILE = files stocked_world INVITES_FILE
           \<and> pool w' = Some [JStr ''X'', JStr ''Y''])"
proof -
  have o: "outcomes stocked_world = []" by (simp add: stocked_world_def)
  have b: "balance stocked_world (py_str (interaction_guild_id member42))
             (py_str (interaction_user_id member42)) = Some 2"
    by (simp add: balance_def ledger_def stocked_world_def member42_def py_str_7 py_str_42)
  have p: "pool stocked_world = Some [JStr ''X'', JStr ''Y'']"
    by (simp add: pool_def stocked_world_def)
  have s: "user_send \<lparr>user_send = Inl Forbidden, log_channel = None\<rparr> = Inl Forbidden" by simp
  show ?thesis
    using claim_delivery_refused [OF o b _ p s] o b p
    by (simp add: member42_def py_str_7 py_str_42)
qed

text \<open>
  Claim C2 as stated fails when the ledger write that follows the pool write raises: the
  eleventh call of the operating system of the attempt is \<^verbatim>\<open>os.makedirs\<close> in the second
  \<^verbatim>\<open>save_invites\<close>. The account \<open>X\<close> was sent and has left the pool on disk; the
  member's balance on disk is still 2; the member is told that an error occurred.
\<close>

theorem claim_partial_commit:
  "pool stocked_world = Some [JStr ''X'', JStr ''Y'']
   \<and> balance stocked_world ''7'' ''42'' = Some 2
   \<and> fst (claim member42 dm_accepted ledger_write_fails)
       = [DirectMessage (JStr ''X''), Respond ClaimError]
   \<and> pool (snd (claim member42 dm_accepted ledger_write_fails)) = Some [JStr ''Y'']
   \<and> balance (snd (claim member42 dm_accepted ledger_write_fails)) ''7'' ''42'' = Some 2"
  by (simp add: ledger_write_fails_def stocked_world_def member42_def dm_accepted_def
      py_str_7 py_str_42 pool_def balance_def ledger_def
      claim_def claim_try_def claim_from_pool_def claim_deliver_def claim_commit_def
      load_invites_def load_accounts_def save_invites_def save_accounts_def
      initialize_user_invites_def ensure_guild_def ensure_user_def
      get_count_def get_entry_def set_count_def bind_def
      load_json_def load_json_read_def save_json_def save_json_try_def
      os_makedirs_def read_json_def write_json_def os_replace_def os_path_exists_def
      os_remove_def next_io_def INVITES_FILE_def ACCOUNTS_FILE_def Let_def)

text \<open>
  Claim C2, as amended. In a claim attempt during which no call of the operating system
  fails, whatever the two files hold and whatever the platform answers, either the pool and
  every balance are afterwards what they were, or the first account has left the pool, it
  was sent to the member, and the member's balance is one less while every other balance
  is what it was.
\<close>

theorem claim_all_or_nothing:
  assumes "outcomes w = []"
  shows "case claim i env w of
           (sent, w') \<Rightarrow>
             (pool w' = pool w \<and> (\<forall>g u. balance w' g u = balance w g u))
           \<or> (\<exists>x rest n.
                 pool w = Some (x # rest) \<and> pool w' = Some rest \<and> delivered sent = [x]
               \<and> balance w (py_str (interaction_guild_id i)) (py_str (interaction_user_id i))
                   = Some n
               \<and> balance w' (py_str (interaction_guild_id i)) (py_str (interaction_user_id i))
                   = Some (n - 1)
               \<and> (\<forall>g u. (g, u) \<noteq> (py_str (interaction_guild_id i),
                                     py_str (interaction_user_id i)) \<longrightarrow>
                     balance w' g u = balance w g u))"
proof -
  let ?g = "py_str (interaction_guild_id i)" and ?u = "py_str (interaction_user_id i)"
  define w1 where "w1 = w\<lparr>files := (if unreadable w INVITES_FILE
      then (files w)(INVITES_FILE \<mapsto> Document (JDict [])) else files w)\<rparr>"
  obtain gs where gs: "ledger w = JDict gs" using ledger_is_dict by blast
  have li: "load_invites w = (JDict gs, w1)"
    using load_invites_ok [OF assms] gs by (simp add: w1_def)
  have w1: "outcomes w1 = []" "pool w1 = pool w" "ledger w1 = JDict gs"
    using assms gs
    by (auto simp add: w1_def pool_def ledger_def unreadable_def
        split: option.splits content.splits json.splits)
  show ?thesis
  proof (cases "bind (ensure_guild (JDict gs) ?g) (\<lambda>i. ensure_user i ?g ?u)")
    case (Inl e)
    then show ?thesis
      using li w1 gs
      by (simp add: claim_def claim_try_def initialize_user_invites_def balance_def)
  next
    case (Inr L')
    from initialize_dict [OF Inr] obtain d where d: "L' = JDict d" by (rule isinstance_dictE)
    define w2 where "w2 = w1\<lparr>files := (files w1)(INVITES_FILE @ ''.tmp'' := None,
      INVITES_FILE \<mapsto> Document (JDict d))\<rparr>"
    have init: "initialize_user_invites (JDict gs) ?g ?u w1 = (Inr (JDict d), w2)"
      using Inr d w1(1)
      by (simp add: initialize_user_invites_def save_invites_def save_json_ok w2_def)
    have w2: "outcomes w2 = []" "pool w2 = pool w" "ledger w2 = JDict d"
      using w1 by (simp_all add: w2_def pool_def ledger_def)
    have ct: "claim_try i env w =
        (case get_count (JDict d) ?g ?u of
           Inl e \<Rightarrow> (Inl e, [], w2)
         | Inr n \<Rightarrow> if n < 1 then (Inr (), [Respond NeedInvite], w2)
                    else claim_from_pool (JDict d) ?g ?u env w2)"
      using li init by (simp add: claim_try_def Let_def)
    show ?thesis
    proof (cases "balance_in (JDict gs) ?g ?u")
      case None
      from initialize_malformed [OF None Inr] d
      obtain e where "d = gs" "get_count (JDict d) ?g ?u = Inl e" by auto
      then show ?thesis
        using ct w2 gs by (simp add: claim_def balance_def)
    next
      case (Some n)
      from initialize_pure [OF Some] Inr d
      have p: "get_count (JDict d) ?g ?u = Inr n"
        "\<And>g' u'. balance_in (JDict d) g' u' = balance_in (JDict gs) g' u'"
        by auto
      show ?thesis
      proof (cases "n < 1")
        case True
        then show ?thesis
          using ct p w2 gs by (simp add: claim_def balance_def)
      next
        case False
        obtain r sent w' where cp: "claim_from_pool (JDict d) ?g ?u env w2 = (r, sent, w')"
          by (cases "claim_from_pool (JDict d) ?g ?u env w2")
        from claim_from_pool_ok [OF w2(1) p(1), of env] cp
        consider "pool w' = pool w2" "files w' INVITES_FILE = files w2 INVITES_FILE"
          | x rest d' where "pool w2 = Some (x # rest)" "delivered sent = [x]"
              "set_count (JDict d) ?g ?u (n - 1) = Inr (JDict d')" "pool w' = Some rest"
              "files w' INVITES_FILE = Some (Document (JDict d'))"
          by auto
        then have "(pool w' = pool w \<and> (\<forall>g u. balance w' g u = balance w g u))
           \<or> (\<exists>x rest n.
                 pool w = Some (x # rest) \<and> pool w' = Some rest \<and> delivered sent = [x]
               \<and> balance w ?g ?u = Some n \<and> balance w' ?g ?u = Some (n - 1)
               \<and> (\<forall>g u. (g, u) \<noteq> (?g, ?u) \<longrightarrow> balance w' g u = balance w g u))"
        proof cases
          case 1
          from 1(2) have "ledger w' = ledger w2" by (rule ledger_same)
          with 1(1) w2 p(2) gs show ?thesis by (simp add: balance_def)
        next
          case (2 x rest d')
          from set_count_balance [OF p(1), of "n - 1"] 2(3)
          have b: "balance_in (JDict d') ?g ?u = Some (n - 1)"
            "\<And>g' u'. (g', u') \<noteq> (?g, ?u) \<Longrightarrow>
               balance_in (JDict d') g' u' = balance_in (JDict d) g' u'"
            by auto
          from 2(5) have "ledger w' = JDict d'" by (rule ledger_doc)
          with 2 b p(2) Some gs w2 have
            "pool w = Some (x # rest) \<and> pool w' = Some rest \<and> delivered sent = [x]
               \<and> balance w ?g ?u = Some n \<and> balance w' ?g ?u = Some (n - 1)
               \<and> (\<forall>g u. (g, u) \<noteq> (?g, ?u) \<longrightarrow> balance w' g u = balance w g u)"
            by (simp add: balance_def)
          then show ?thesis by blast
        qed
        then show ?thesis
          using ct p(1) False cp by (auto simp add: claim_def split: sum.splits)
      qed
    qed
  qed
qed

theorem claim_all_or_nothing_witness:
  "outcomes stocked_world = [] \<and>
   (case claim member42 dm_accepted stocked_world of
      (sent, w') \<Rightarrow>
        (pool w' = pool stocked_world \<and> (\<forall>g u. balance w' g u = balance stocked_world g u))
      \<or> (\<exists>x rest n.
            pool stocked_world = Some (x # rest) \<and> pool w' = Some rest \<and> delivered sent = [x]
          \<and> balance stocked_world (py_str (interaction_guild_id member42))
               (py_str (interaction_user_id member42)) = Some n
          \<and> balance w' (py_str (interaction_guild_id member42))
               (py_str (interaction_user_id member42)) = Some (n - 1)
          \<and> (\<forall>g u. (g, u) \<noteq> (py_str (interaction_guild_id member42),
                                py_str (interaction_user_id member42)) \<longrightarrow>
                balance w' g u = balance stocked_world g u)))"
proof -
  have o: "outcomes stocked_world = []" by (simp add: stocked_world_def)
  show ?thesis
    using claim_all_or_nothing [OF o, of member42 dm_accepted] o by blast
qed

section \<open>A member arrives\<close>

lemma scan_no_match:
  assumes "cache guild = Some c" and "find (used c) invs = None"
  shows "scan_invites guild invs L cache = Inr (L, cache)"
  using assms(2)
  by (induction invs) (simp_all add: assms(1) used_def cached_def split: if_splits)


lemma scan_no_cache:
  "cache guild = None \<Longrightarrow> invs \<noteq> [] \<Longrightarrow> scan_invites guild invs L cache = Inl KeyError"
  by (cases invs) simp_all

lemma update_absent: "map_of al k = None \<Longrightarrow> AList.update k v al = al @ [(k, v)]"
  by (induction al) (auto split: if_splits)

lemma ensure_guild_ok:
  "ensure_guild (JDict gs) g =
     Inr (JDict (if map_of gs g = None then gs @ [(g, JDict [])] else gs))"
  by (simp add: ensure_guild_def bind_def update_absent)




lemma load_invites_any:
  "\<exists>d. fst (load_invites w) = JDict d \<and>
     invite_cache (snd (load_invites w)) = invite_cache w"
  by (auto simp add: load_invites_def load_json_def load_json_read_def read_json_def
      os_makedirs_def write_json_def next_io_def
      split: list.split io.split option.split content.split
      elim: isinstance_dictE)

lemma member_join_no_cache:
  assumes "invite_cache w guild = None" and "invs \<noteq> []"
  shows "fst (on_member_join guild (Inr invs) w) = Inl KeyError"
proof -
  obtain L w1 where li: "load_invites w = (L, w1)" by (cases "load_invites w")
  with load_invites_any [of w] obtain d where d: "L = JDict d" "invite_cache w1 = invite_cache w"
    by auto
  show ?thesis
    using li d assms
    by (simp add: on_member_join_def on_member_join_try_def ensure_guild_ok scan_no_cache)
qed





text \<open>
  Claim C6 fails on the code. A guild whose fetch was refused when the bot joined has no
  cache (\<open>on_guild_join\<close> catches \<^verbatim>\<open>discord.Forbidden\<close> and leaves it so). When a
  member then joins it and the fetch returns one invite, \<^verbatim>\<open>invite_cache[member.guild.id]\<close>
  raises \<^verbatim>\<open>KeyError\<close>, which the handler does not catch, and \<^verbatim>\<open>save_invites\<close> is not
  reached: the ledger file holds the empty dictionary that \<open>load_invites\<close> healed it to.
\<close>

theorem member_join_without_cache:
  "on_guild_join 7 (Inl Forbidden) fresh_world = (Inr (), fresh_world)
   \<and> invite_cache fresh_world 7 = None
   \<and> fst (on_member_join 7 (Inr [an_invite]) fresh_world) = Inl KeyError
   \<and> files (snd (on_member_join 7 (Inr [an_invite]) fresh_world)) INVITES_FILE
       = Some (Document (JDict []))"
  by (simp add: on_guild_join_def fresh_world_def on_member_join_def on_member_join_try_def
      load_invites_def load_json_ok unreadable_def ensure_guild_ok)



section \<open>No balance is ever negative\<close>

lemma load_json_other:
  "f' \<noteq> filename \<Longrightarrow> files (snd (load_json filename dflt w)) f' = files w f'"
  by (simp add: load_json_def load_json_read_def read_json_def os_makedirs_def write_json_def
      next_io_def
      split: list.split io.split option.split content.split prod.split sum.split)

lemma load_json_target:
  "files (snd (load_json filename dflt w)) filename = files w filename
   \<or> files (snd (load_json filename dflt w)) filename = Some (Document dflt)
   \<or> files (snd (load_json filename dflt w)) filename = Some Unparsable"
  by (simp add: load_json_def load_json_read_def read_json_def os_makedirs_def write_json_def
      next_io_def
      split: list.split io.split option.split content.split prod.split sum.split)

lemma save_json_other:
  "f' \<noteq> filename \<Longrightarrow> f' \<noteq> filename @ ''.tmp'' \<Longrightarrow>
   files (snd (save_json filename data w)) f' = files w f'"
  by (simp add: save_json_def save_json_try_def os_makedirs_def write_json_def os_replace_def
      os_remove_def os_path_exists_def next_io_def Let_def
      split: list.split io.split option.split prod.split sum.split)

lemma save_json_not_dict:
  "\<not> isinstance_dict data \<Longrightarrow> save_json filename data w = (Inl ValueError, w)"
  by (simp add: save_json_def)

lemma load_invites_inv:
  assumes "balances_ok (ledger w)"
  shows "balances_ok (fst (load_invites w)) \<and> balances_ok (ledger (snd (load_invites w)))"
proof
  from load_json_returns [where filename = INVITES_FILE and dflt = "JDict []" and w = w]
  have "fst (load_invites w) = JDict [] \<or>
        files w INVITES_FILE = Some (Document (fst (load_invites w)))"
    by (simp add: load_invites_def)
  then show "balances_ok (fst (load_invites w))"
  proof
    assume "fst (load_invites w) = JDict []"
    then show ?thesis by simp
  next
    assume f: "files w INVITES_FILE = Some (Document (fst (load_invites w)))"
    from load_invites_any [of w] obtain d where d: "fst (load_invites w) = JDict d" by blast
    with f have "ledger w = JDict d" by (simp add: ledger_def)
    with assms d show ?thesis by simp
  qed
next
  let ?w' = "snd (load_invites w)"
  from load_json_target [where filename = INVITES_FILE and dflt = "JDict []" and w = w]
  have "files ?w' INVITES_FILE = files w INVITES_FILE
      \<or> files ?w' INVITES_FILE = Some (Document (JDict []))
      \<or> files ?w' INVITES_FILE = Some Unparsable"
    by (simp add: load_invites_def)
  then have "ledger ?w' = ledger w \<or> ledger ?w' = JDict []"
    by (auto simp add: ledger_def)
  with assms show "balances_ok (ledger ?w')" by auto
qed

lemma save_invites_inv:
  assumes "balances_ok (ledger w)" and "balances_ok L"
  shows "balances_ok (ledger (snd (save_invites L w)))"
proof -
  let ?w' = "snd (save_invites L w)"
  from assms(2) obtain d where d: "L = JDict d" by (cases L) simp_all
  from save_json_target [where filename = INVITES_FILE and d = d and w = w]
  have "files ?w' INVITES_FILE = files w INVITES_FILE
      \<or> files ?w' INVITES_FILE = Some (Document (JDict d))"
    by (auto simp add: save_invites_def d split: prod.splits sum.splits)
  then have "ledger ?w' = ledger w \<or> ledger ?w' = L"
    by (auto simp add: ledger_def d)
  with assms show ?thesis by auto
qed

lemma load_accounts_inv: "ledger (snd (load_accounts w)) = ledger w"
proof -
  have "files (snd (load_accounts w)) INVITES_FILE = files w INVITES_FILE"
    using load_json_other [where f' = INVITES_FILE and filename = ACCOUNTS_FILE]
    by (simp add: load_accounts_def split_beta)
  then show ?thesis by (simp add: ledger_def)
qed

lemma save_accounts_inv: "ledger (snd (save_accounts accounts w)) = ledger w"
proof -
  have "files (snd (save_accounts accounts w)) INVITES_FILE = files w INVITES_FILE"
    using save_json_other [where f' = INVITES_FILE and filename = ACCOUNTS_FILE]
    by (simp add: save_accounts_def)
  then show ?thesis by (simp add: ledger_def)
qed

lemma list_all_update:
  "list_all P al \<Longrightarrow> P (k, v) \<Longrightarrow> list_all P (AList.update k v al)"
  by (induction al) auto

lemma list_all_map_of:
  "list_all P al \<Longrightarrow> map_of al k = Some v \<Longrightarrow> P (k, v)"
  by (induction al) (auto split: if_splits)

lemma balances_ok_guild:
  assumes "balances_ok (JDict gs)" and "map_of gs g = Some m"
  obtains us where "m = JDict us" "list_all (\<lambda>(u, b). nonneg b) us"
proof -
  from list_all_map_of [OF _ assms(2), of "\<lambda>(g, m). members_ok m"] assms(1)
  have "members_ok m" by simp
  then show ?thesis using that by (cases m) simp_all
qed

lemma balances_ok_entry:
  assumes "list_all (\<lambda>(u, b). nonneg b) us" and "map_of us u = Some v"
  obtains n where "v = JInt n" "0 \<le> n"
proof -
  from list_all_map_of [OF assms] have "nonneg v" by simp
  then show ?thesis using that by (cases v) simp_all
qed

lemma balances_ok_update:
  assumes "balances_ok (JDict gs)" and "list_all (\<lambda>(u, b). nonneg b) us"
  shows "balances_ok (JDict (AList.update g (JDict us) gs))"
  using assms by (simp add: list_all_update)

lemma ensure_guild_inv:
  assumes "balances_ok L"
  shows "\<exists>L'. ensure_guild L g = Inr L' \<and> balances_ok L'"
proof -
  from assms obtain gs where "L = JDict gs" by (cases L) simp_all
  with assms show ?thesis
    by (simp add: ensure_guild_def bind_def list_all_update)
qed

lemma ensure_user_inv:
  assumes "balances_ok L" and "ensure_user L g u = Inr L'"
  shows "balances_ok L'"
proof -
  from assms(1) obtain gs where L: "L = JDict gs" by (cases L) simp_all
  from assms(2) L obtain m where m: "map_of gs g = Some m"
    by (auto simp add: ensure_user_def bind_def split: option.splits)
  from assms(1) L have ok: "balances_ok (JDict gs)" by simp
  from ok m obtain us where us: "m = JDict us" "list_all (\<lambda>(u, b). nonneg b) us"
    by (rule balances_ok_guild)
  have upd: "list_all (\<lambda>(u, b). nonneg b) (AList.update u (JInt 0) us)"
    using us(2) by (simp add: list_all_update)
  show ?thesis
  proof (cases "map_of us u")
    case None
    with assms(2) L m us have "L' = JDict (AList.update g (JDict (AList.update u (JInt 0) us)) gs)"
      by (simp add: ensure_user_def bind_def)
    with ok upd show ?thesis by (simp only: balances_ok_update)
  next
    case (Some v)
    with assms(2) L m us have "L' = L" by (simp add: ensure_user_def bind_def)
    with assms(1) show ?thesis by simp
  qed
qed

lemma get_count_nonneg:
  assumes "balances_ok L" and "get_count L g u = Inr n"
  shows "0 \<le> n"
proof -
  from assms(1) obtain gs where L: "L = JDict gs" by (cases L) simp_all
  from assms(2) L have gc: "get_count (JDict gs) g u = Inr n" by simp
  from gc obtain us v where
    g: "map_of gs g = Some (JDict us)" "map_of us u = Some v" "py_int v = Inr n"
    by (rule get_count_cases)
  from assms(1) L have ok: "balances_ok (JDict gs)" by simp
  from ok g(1) obtain us' where "JDict us = JDict us'" "list_all (\<lambda>(u, b). nonneg b) us'"
    by (rule balances_ok_guild)
  then have "list_all (\<lambda>(u, b). nonneg b) us" by simp
  from this g(2) obtain k where "v = JInt k" "0 \<le> k" by (rule balances_ok_entry)
  with g(3) show ?thesis by simp
qed

lemma set_count_inv:
  assumes "balances_ok L" and "set_count L g u m = Inr L'" and "0 \<le> m"
  shows "balances_ok L'"
proof -
  from assms(1) obtain gs where L: "L = JDict gs" by (cases L) simp_all
  from assms(2) L obtain x where x: "map_of gs g = Some x"
    by (auto simp add: set_count_def bind_def split: option.splits)
  from assms(1) L have ok: "balances_ok (JDict gs)" by simp
  from ok x obtain us where us: "x = JDict us" "list_all (\<lambda>(u, b). nonneg b) us"
    by (rule balances_ok_guild)
  have upd: "list_all (\<lambda>(u, b). nonneg b) (AList.update u (JInt m) us)"
    using us(2) assms(3) by (simp add: list_all_update)
  from assms(2) L x us
  have "L' = JDict (AList.update g (JDict (AList.update u (JInt m) us)) gs)"
    by (simp add: set_count_def bind_def)
  with ok upd show ?thesis by (simp only: balances_ok_update)
qed

lemma ledger_other_fields [simp]:
  "ledger (w\<lparr>outcomes := os\<rparr>) = ledger w"
  "ledger (w\<lparr>invite_cache := c\<rparr>) = ledger w"
  by (simp_all add: ledger_def)

lemma load_invites_keeps:
  assumes "load_invites w = (L, w')" and "balances_ok (ledger w)"
  shows "balances_ok L" and "balances_ok (ledger w')"
  using load_invites_inv [OF assms(2)] assms(1) by simp_all

lemma save_invites_keeps:
  assumes "save_invites L w = (r, w')" and "balances_ok (ledger w)" and "balances_ok L"
  shows "balances_ok (ledger w')"
  using save_invites_inv [OF assms(2,3)] assms(1) by simp

lemma load_accounts_keeps:
  assumes "load_accounts w = (r, w')"
  shows "ledger w' = ledger w"
  using load_accounts_inv [of w] assms by simp

lemma save_accounts_keeps:
  assumes "save_accounts accounts w = (r, w')"
  shows "ledger w' = ledger w"
  using save_accounts_inv [of accounts w] assms by simp

lemma initialize_keeps:
  assumes "initialize_user_invites L g u w = (r, w')"
    and "balances_ok (ledger w)" and "balances_ok L"
  shows "balances_ok (ledger w')" and "\<And>L'. r = Inr L' \<Longrightarrow> balances_ok L'"
proof -
  from ensure_guild_inv [OF assms(3)] obtain L1 where
    L1: "ensure_guild L g = Inr L1" "balances_ok L1" by blast
  have "balances_ok (ledger w') \<and> (\<forall>L'. r = Inr L' \<longrightarrow> balances_ok L')"
  proof (cases "ensure_user L1 g u")
    case (Inl e)
    with L1 assms(1,2) show ?thesis by (auto simp add: initialize_user_invites_def bind_def)
  next
    case (Inr L2)
    with L1 have ok: "balances_ok L2" by (auto intro: ensure_user_inv)
    obtain r2 w2 where s: "save_invites L2 w = (r2, w2)" by (cases "save_invites L2 w")
    from save_invites_keeps [OF s assms(2) ok] have "balances_ok (ledger w2)" .
    with assms(1) L1 Inr s ok show ?thesis
      by (cases r2) (auto simp add: initialize_user_invites_def bind_def)
  qed
  then show "balances_ok (ledger w')" and "\<And>L'. r = Inr L' \<Longrightarrow> balances_ok L'" by auto
qed

lemma check_invites_inv:
  assumes "balances_ok (ledger w)"
  shows "balances_ok (ledger (snd (check_invites i w)))"
proof -
  obtain L w1 where li: "load_invites w = (L, w1)" by (cases "load_invites w")
  note ok = load_invites_keeps [OF li assms]
  obtain r w2 where ini: "initialize_user_invites L (py_str (interaction_guild_id i))
      (py_str (interaction_user_id i)) w1 = (r, w2)"
    by (cases "initialize_user_invites L (py_str (interaction_guild_id i))
      (py_str (interaction_user_id i)) w1")
  from initialize_keeps(1) [OF ini ok(2) ok(1)] li ini show ?thesis
    by (simp add: check_invites_def Let_def split: sum.splits)
qed

lemma claim_commit_inv:
  assumes "balances_ok (ledger w)" and "balances_ok L" and "get_count L g u = Inr n"
    and "1 \<le> n"
  shows "balances_ok (ledger (snd (snd (claim_commit accounts L g u env w))))"
proof (cases "py_first accounts")
  case (Inl e)
  with assms(1) show ?thesis by (simp add: claim_commit_def)
next
  case first: (Inr first)
  show ?thesis
  proof (cases "user_send env")
    case (Inl e)
    with first assms(1) show ?thesis by (simp add: claim_commit_def)
  next
    case sent: (Inr v)
    show ?thesis
    proof (cases "py_pop_first accounts")
      case (Inl e)
      with first sent assms(1) show ?thesis by (simp add: claim_commit_def)
    next
      case (Inr p)
      obtain account accounts' where p: "p = (account, accounts')" by (cases p)
      obtain r1 w1 where sa: "save_accounts accounts' w = (r1, w1)"
        by (cases "save_accounts accounts' w")
      from save_accounts_keeps [OF sa] assms(1) have w1: "balances_ok (ledger w1)" by simp
      show ?thesis
      proof (cases "set_count L g u (n - 1)")
        case (Inl e)
        with first sent Inr p sa w1 assms(3) show ?thesis
          by (simp add: claim_commit_def bind_def split: sum.splits)
      next
        case dec: (Inr L')
        from set_count_inv [OF assms(2) dec] assms(4) have L': "balances_ok L'" by simp
        obtain r2 w2 where si: "save_invites L' w1 = (r2, w2)"
          by (cases "save_invites L' w1")
        from save_invites_keeps [OF si w1 L'] have "balances_ok (ledger w2)" .
        with first sent Inr p sa w1 assms(3) dec si show ?thesis
          by (simp add: claim_commit_def bind_def split: sum.splits option.splits)
      qed
    qed
  qed
qed

lemma claim_inv:
  assumes "balances_ok (ledger w)"
  shows "balances_ok (ledger (snd (claim i env w)))"
proof -
  let ?g = "py_str (interaction_guild_id i)" and ?u = "py_str (interaction_user_id i)"
  obtain L w1 where li: "load_invites w = (L, w1)" by (cases "load_invites w")
  note ok1 = load_invites_keeps [OF li assms]
  obtain r w2 where ini: "initialize_user_invites L ?g ?u w1 = (r, w2)"
    by (cases "initialize_user_invites L ?g ?u w1")
  note ok2 = initialize_keeps [OF ini ok1(2) ok1(1)]
  show ?thesis
  proof (cases r)
    case (Inl e)
    with li ini ok2(1) show ?thesis by (simp add: claim_def claim_try_def Let_def)
  next
    case (Inr L')
    with ok2(2) have L': "balances_ok L'" by simp
    show ?thesis
    proof (cases "get_count L' ?g ?u")
      case (Inl e)
      with li ini Inr ok2(1) show ?thesis by (simp add: claim_def claim_try_def Let_def)
    next
      case n: (Inr n)
      show ?thesis
      proof (cases "n < 1")
        case True
        with li ini Inr n ok2(1) show ?thesis by (simp add: claim_def claim_try_def Let_def)
      next
        case False
        obtain ra w3 where la: "load_accounts w2 = (ra, w3)" by (cases "load_accounts w2")
        from load_accounts_keeps [OF la] ok2(1) have w3: "balances_ok (ledger w3)" by simp
        from False have "1 \<le> n" by simp
        from claim_commit_inv [OF w3 L' n this]
        have cc: "balances_ok (ledger (snd (snd (claim_commit a L' ?g ?u env w3))))" for a .
        have "balances_ok (ledger (snd (snd (claim_from_pool L' ?g ?u env w2))))"
          using la w3 cc
          by (auto simp add: claim_from_pool_def claim_deliver_def split_beta
              split: sum.splits simp del: balances_ok.simps)
        with li ini Inr n False show ?thesis
          by (simp add: claim_def claim_try_def Let_def split_beta split: sum.splits)
      qed
    qed
  qed
qed

lemma credit_inv:
  assumes "balances_ok L" and "credit L g u = Inr L'"
  shows "balances_ok L'"
proof -
  from assms(2) obtain L1 n where
    c: "ensure_user L g u = Inr L1" "get_count L1 g u = Inr n"
       "set_count L1 g u (n + 1) = Inr L'"
    by (auto simp add: credit_def bind_def split: sum.splits)
  from ensure_user_inv [OF assms(1) c(1)] have L1: "balances_ok L1" .
  from get_count_nonneg [OF L1 c(2)] have "0 \<le> n + 1" by simp
  from set_count_inv [OF L1 c(3) this] show ?thesis .
qed

lemma scan_inv:
  assumes "balances_ok L" and "scan_invites guild invs L cache = Inr (L', cache')"
  shows "balances_ok L'"
  using assms(2)
proof (induction invs)
  case Nil
  with assms(1) show ?case by simp
next
  case (Cons i invs)
  then show ?case
    using assms(1)
    by (auto simp add: bind_def Let_def split: option.splits if_splits sum.splits
        dest: credit_inv simp del: balances_ok.simps)
qed

lemma on_member_join_inv:
  assumes "balances_ok (ledger w)"
  shows "balances_ok (ledger (snd (on_member_join guild fetched w)))"
proof -
  obtain L w1 where li: "load_invites w = (L, w1)" by (cases "load_invites w")
  note ok1 = load_invites_keeps [OF li assms]
  from ensure_guild_inv [OF ok1(1)] obtain L1 where
    L1: "ensure_guild L (py_str guild) = Inr L1" "balances_ok L1" by blast
  have "balances_ok (ledger (snd (on_member_join_try guild fetched L1 w1)))"
  proof (cases fetched)
    case (Inl e)
    with ok1(2) show ?thesis by (simp add: on_member_join_try_def)
  next
    case (Inr invs)
    show ?thesis
    proof (cases "scan_invites guild invs L1 (invite_cache w1)")
      case (Inl e)
      with Inr ok1(2) show ?thesis by (simp add: on_member_join_try_def)
    next
      case scanned: (Inr p)
      obtain L' cache' where p: "p = (L', cache')" by (cases p)
      from scan_inv [OF L1(2)] scanned p have "balances_ok L'" by simp
      from save_invites_inv [OF _ this, of "w1\<lparr>invite_cache := cache'\<rparr>"] ok1(2)
      show ?thesis using Inr scanned p by (simp add: on_member_join_try_def)
    qed
  qed
  with li L1 show ?thesis
    by (simp add: on_member_join_def split_beta split: sum.splits)
qed

lemma add_account_inv: "ledger (snd (add_account account w)) = ledger w"
proof -
  obtain r w1 where la: "load_accounts w = (r, w1)" by (cases "load_accounts w")
  note l1 = load_accounts_keeps [OF la]
  have "ledger (snd (save_accounts a w1)) = ledger w" for a
    using l1 by (simp add: save_accounts_inv)
  with la l1 show ?thesis
    by (simp add: add_account_def split_beta split: sum.splits)
qed

lemma remaining_inv: "ledger (snd (remaining w)) = ledger w"
proof -
  obtain r w1 where la: "load_accounts w = (r, w1)" by (cases "load_accounts w")
  from load_accounts_keeps [OF la] la show ?thesis
    by (simp add: remaining_def split: sum.splits)
qed

lemma on_guild_join_inv: "ledger (snd (on_guild_join guild fetched w)) = ledger w"
  by (simp add: on_guild_join_def split: sum.splits)

lemma on_ready_inv: "ledger (snd (on_ready guilds w)) = ledger w"
proof (induction guilds arbitrary: w)
  case Nil
  show ?case by simp
next
  case (Cons p guilds)
  obtain guild fetched where p: "p = (guild, fetched)" by (cases p)
  obtain r w1 where j: "on_guild_join guild fetched w = (r, w1)"
    by (cases "on_guild_join guild fetched w")
  from on_guild_join_inv [of guild fetched w] j have "ledger w1 = ledger w" by simp
  with Cons.IH [of w1] p j show ?case by (simp split: sum.splits)
qed

lemma on_invite_create_inv: "ledger (on_invite_create guild i w) = ledger w"
  by (simp add: on_invite_create_def Let_def)

lemma handle_inv:
  assumes "balances_ok (ledger w)"
  shows "balances_ok (ledger (handle ev w))"
  using assms
  by (cases ev)
     (simp_all add: check_invites_inv claim_inv on_member_join_inv add_account_inv
        remaining_inv on_ready_inv on_guild_join_inv on_invite_create_inv
        del: balances_ok.simps)

lemma balances_ok_balance:
  assumes "balances_ok L"
  shows "\<exists>n. balance_in L g u = Some n \<and> 0 \<le> n"
proof -
  from assms obtain gs where L: "L = JDict gs" by (cases L) simp_all
  show ?thesis
  proof (cases "map_of gs g")
    case None
    with L show ?thesis by simp
  next
    case (Some m)
    from assms L have ok: "balances_ok (JDict gs)" by simp
    from ok Some obtain us where us: "m = JDict us" "list_all (\<lambda>(u, b). nonneg b) us"
      by (rule balances_ok_guild)
    show ?thesis
    proof (cases "map_of us u")
      case None
      with L Some us show ?thesis by simp
    next
      case v: (Some v)
      from us(2) v obtain k where "v = JInt k" "0 \<le> k" by (rule balances_ok_entry)
      with L Some us v show ?thesis by simp
    qed
  qed
qed

lemma three_claims_balance:
  "balance (run three_claims stocked_world) ''7'' ''42'' = Some 0"
  by (simp add: three_claims_def stocked_world_def member42_def dm_accepted_def
      py_str_7 py_str_42 pool_def balance_def ledger_def
      claim_def claim_try_def claim_from_pool_def claim_deliver_def claim_commit_def
      load_invites_def load_accounts_def save_invites_def save_accounts_def
      initialize_user_invites_def ensure_guild_def ensure_user_def
      get_count_def get_entry_def set_count_def bind_def
      load_json_def load_json_read_def save_json_def save_json_try_def
      os_makedirs_def read_json_def write_json_def os_replace_def os_path_exists_def
      os_remove_def next_io_def INVITES_FILE_def ACCOUNTS_FILE_def Let_def)

text \<open>
  Claim C9. From a ledger in order, every run of the bot (any events, any answers of the
  platform, any outcomes of the calls of the operating system) ends with a ledger in order
  on disk: every balance is an integer that is at least 0.
\<close>

theorem balances_never_negative:
  assumes "balances_ok (ledger w)"
  shows "balances_ok (ledger (run evs w))
         \<and> (\<forall>g u. \<exists>n. balance (run evs w) g u = Some n \<and> 0 \<le> n)"
proof -
  have "balances_ok (ledger (run evs w))"
    using assms
  proof (induction evs arbitrary: w)
    case Nil
    then show ?case by simp
  next
    case (Cons p evs)
    obtain ev os where p: "p = (ev, os)" by (cases p)
    from Cons.prems have "balances_ok (ledger (w\<lparr>outcomes := os\<rparr>))" by simp
    from handle_inv [OF this] have "balances_ok (ledger (handle ev (w\<lparr>outcomes := os\<rparr>)))" .
    from Cons.IH [OF this] p show ?case by simp
  qed
  then show ?thesis by (simp add: balance_def balances_ok_balance del: balances_ok.simps)
qed

theorem balances_never_negative_witness:
  "balances_ok (ledger stocked_world)
   \<and> balances_ok (ledger (run three_claims stocked_world))
   \<and> balance (run three_claims stocked_world) ''7'' ''42'' = Some 0"
proof -
  have h: "balances_ok (ledger stocked_world)"
    by (simp add: ledger_def stocked_world_def)
  show ?thesis
    using balances_never_negative [OF h, of three_claims] h three_claims_balance by simp
qed

end
